theory Spec2Isabelle
  imports Main "HOL-Library.Sublist"
begin

section \<open>Strings\<close>

text \<open>
  A Python \<open>str\<close> is a sequence of Unicode code points and \<open>len\<close> counts code points,
  so a string is modelled as a list of code points (natural numbers). ASCII literals of the
  source are written through \<open>ascii\<close>; the Korean and Chinese literals are written as the
  code points of their characters.
\<close>

type_synonym pystr = "nat list"

definition ascii :: "string \<Rightarrow> pystr" where
  "ascii s = map of_char s"

definition NL :: nat where
  "NL = 10"

definition SPACE :: nat where
  "SPACE = 32"

text \<open>
  \<open>str.strip()\<close> without argument removes the characters for which \<open>str.isspace\<close> holds:
  U+0009..U+000D, U+001C..U+0020, U+0085, U+00A0, U+1680, U+2000..U+200A, U+2028, U+2029,
  U+202F, U+205F and U+3000.
\<close>

definition isspace :: "nat \<Rightarrow> bool" where
  "isspace c \<longleftrightarrow>
     (9 \<le> c \<and> c \<le> 13) \<or> (28 \<le> c \<and> c \<le> 32) \<or> c = 133 \<or> c = 160 \<or> c = 5760 \<or>
     (8192 \<le> c \<and> c \<le> 8202) \<or> c = 8232 \<or> c = 8233 \<or> c = 8239 \<or> c = 8287 \<or> c = 12288"

definition strip :: "pystr \<Rightarrow> pystr" where
  "strip s = rev (dropWhile isspace (rev (dropWhile isspace s)))"

text \<open>\<open>s.replace('\n', ' ')\<close>: every line feed becomes a space.\<close>

definition replace_nl :: "pystr \<Rightarrow> pystr" where
  "replace_nl s = map (\<lambda>c. if c = NL then SPACE else c) s"

text \<open>
  \<open>s.split("\n")\<close>: the pieces between line feeds; the empty string gives one empty piece
  and a trailing line feed gives a last empty piece.
\<close>

fun split_nl :: "pystr \<Rightarrow> pystr list" where
  "split_nl [] = [[]]"
| "split_nl (c # cs) =
     (if c = NL then [] # split_nl cs
      else (case split_nl cs of [] \<Rightarrow> [[c]] | l # ls \<Rightarrow> (c # l) # ls))"

text \<open>\<open>"\n".join(lines)\<close>.\<close>

fun join_nl :: "pystr list \<Rightarrow> pystr" where
  "join_nl [] = []"
| "join_nl [l] = l"
| "join_nl (l # ls) = l @ NL # join_nl ls"

text \<open>\<open>str(i)\<close> of a non-negative integer, as an f-string renders it.\<close>

fun str_nat :: "nat \<Rightarrow> pystr" where
  "str_nat n = (if n < 10 then [48 + n] else str_nat (n div 10) @ [48 + n mod 10])"

declare str_nat.simps [simp del]

section \<open>The outside world\<close>

text \<open>
  The program talks to three services: the news search endpoint (\<open>requests.get\<close>), the
  translation provider (\<open>GoogleTranslator(...).translate\<close>) and the chat webhook
  (\<open>requests.post\<close>). Each is a function of an abstract world state \<open>'w\<close> that returns its
  answer and the next world state, so that two calls with the same arguments may answer
  differently. Every call and every \<open>print\<close> is recorded, in order, in a trace.

  The translation call is the only one the source guards with \<open>try\<close>/\<open>except Exception\<close>;
  its answer is either the translated text or an exception of class \<open>Exception\<close>, carried
  with the text \<open>str(e)\<close> that the handler prints. The two HTTP calls are taken to return a
  response.
\<close>

datatype exn = Exception pystr

datatype event =
    Print pystr
  | HttpGet pystr pystr nat
  | TranslateCall pystr pystr
  | HttpPost pystr pystr

text \<open>
  \<open>HttpGet url apiKey pageSize\<close>, \<open>TranslateCall target text\<close> and
  \<open>HttpPost url content\<close> record the arguments that vary; the remaining query
  parameters of the search are constants of the source.
\<close>

text \<open>
  The JSON body of the search answer. \<open>dict.get(k)\<close> gives \<open>None\<close> for a missing key, and a
  JSON \<open>null\<close> is \<open>None\<close> as well, so a field read with \<open>get(k)\<close> is an option. The field
  \<open>articles\<close> is read with a default, \<open>data.get("articles", [])\<close>, which tells a missing key
  (the default) from a \<open>null\<close> (\<open>None\<close>); it keeps the three cases apart.
\<close>

datatype 'a json_field = Missing | Null | Present 'a

record raw_article =
  raw_title :: "pystr option"
  raw_description :: "pystr option"
  raw_url :: "pystr option"

record news_data =
  data_status :: "pystr option"
  data_totalResults :: "nat option"
  data_articles :: "raw_article list json_field"

record get_response =
  get_status_code :: nat
  get_json :: news_data

record post_response =
  post_status_code :: nat
  post_text :: pystr

record 'w env =
  NEWS_API_KEY :: "pystr option"
  DISCORD_WEBHOOK_URL :: "pystr option"
  requests_get :: "pystr \<Rightarrow> pystr \<Rightarrow> nat \<Rightarrow> 'w \<Rightarrow> get_response \<times> 'w"
  google_translate :: "pystr \<Rightarrow> pystr \<Rightarrow> 'w \<Rightarrow> (exn + pystr) \<times> 'w"
  requests_post :: "pystr \<Rightarrow> pystr \<Rightarrow> 'w \<Rightarrow> post_response \<times> 'w"

record 'w state =
  world :: 'w
  trace :: "event list"

definition emit :: "event \<Rightarrow> 'w state \<Rightarrow> 'w state" where
  "emit e st = st\<lparr>trace := trace st @ [e]\<rparr>"

definition print :: "pystr \<Rightarrow> 'w state \<Rightarrow> 'w state" where
  "print s st = emit (Print s) st"

section \<open>Translation\<close>

definition translation_error_label :: pystr where
  "translation_error_label = [48264, 50669, 32, 50724, 47448, 58, 32]"

text \<open>
  \<open>translate_text\<close>: the empty text returns at once; otherwise the provider is called, and
  an exception is printed and answered with the text itself.
\<close>

definition translate_text :: "'w env \<Rightarrow> pystr \<Rightarrow> pystr \<Rightarrow> 'w state \<Rightarrow> pystr \<times> 'w state" where
  "translate_text env text target_lang st =
     (if text = [] then ([], st)
      else
        (case google_translate env target_lang text (world st) of
           (Inr translated, w) \<Rightarrow>
             (translated, emit (TranslateCall target_lang text) (st\<lparr>world := w\<rparr>))
         | (Inl (Exception e), w) \<Rightarrow>
             (text, print (translation_error_label @ e)
                      (emit (TranslateCall target_lang text) (st\<lparr>world := w\<rparr>)))))"

record article =
  title :: pystr
  description :: pystr
  url :: pystr

text \<open>
  One pass of the loop of \<open>translate_news_list\<close>: the title is translated, the description
  only when it is not empty, and the url is copied.
\<close>

definition translate_item :: "'w env \<Rightarrow> article \<Rightarrow> pystr \<Rightarrow> 'w state \<Rightarrow> article \<times> 'w state" where
  "translate_item env item dest_lang st =
     (let ko_title = title item;
          ko_desc = description item;
          (t_title, st1) = translate_text env ko_title dest_lang st;
          (t_desc, st2) =
            (if ko_desc \<noteq> [] then translate_text env ko_desc dest_lang st1 else ([], st1))
      in (\<lparr>title = t_title, description = t_desc, url = url item\<rparr>, st2))"

fun translate_loop ::
  "'w env \<Rightarrow> pystr \<Rightarrow> article list \<Rightarrow> article list \<Rightarrow> 'w state \<Rightarrow> article list \<times> 'w state" where
  "translate_loop env dest_lang [] translated st = (translated, st)"
| "translate_loop env dest_lang (item # items) translated st =
     (case translate_item env item dest_lang st of
        (t, st') \<Rightarrow> translate_loop env dest_lang items (translated @ [t]) st')"

definition translate_news_list ::
  "'w env \<Rightarrow> article list \<Rightarrow> pystr \<Rightarrow> 'w state \<Rightarrow> article list \<times> 'w state" where
  "translate_news_list env news_list dest_lang st = translate_loop env dest_lang news_list [] st"

section \<open>Fetching the news\<close>

datatype error = RuntimeError pystr | HTTPError nat | TypeError

text \<open>\<open>not v\<close> for a value read with \<open>os.environ.get\<close>: unset, or set to the empty string.\<close>

definition unset :: "pystr option \<Rightarrow> bool" where
  "unset v \<longleftrightarrow> (case v of None \<Rightarrow> True | Some s \<Rightarrow> s = [])"

definition TOP_N :: nat where
  "TOP_N = 5"

definition news_key_missing :: pystr where
  "news_key_missing =
     [54872, 44221, 48320, 49688, 32] @ ascii ''NEWS_API_KEY'' @
     [32, 44032, 32, 49444, 51221, 46104, 50612, 32, 51080, 51648, 32, 50506, 49845, 45768, 45796, 46]"

definition news_url :: pystr where
  "news_url = ascii ''https://newsapi.org/v2/everything''"

definition api_summary_label :: pystr where
  "api_summary_label = ascii ''NewsAPI '' @ [51025, 45813, 32, 50836, 50557, 58]"

text \<open>\<open>str\<close> of a value that may be \<open>None\<close>, as \<open>print\<close> renders it.\<close>

definition str_opt :: "('a \<Rightarrow> pystr) \<Rightarrow> 'a option \<Rightarrow> pystr" where
  "str_opt f v = (case v of None \<Rightarrow> ascii ''None'' | Some x \<Rightarrow> f x)"

text \<open>\<open>a.get(k) or ""\<close>.\<close>

definition or_empty :: "pystr option \<Rightarrow> pystr" where
  "or_empty v = (case v of None \<Rightarrow> [] | Some s \<Rightarrow> s)"

text \<open>The loop over the candidate articles: a candidate whose stripped title is empty is skipped.\<close>

fun news_loop :: "raw_article list \<Rightarrow> article list \<Rightarrow> article list" where
  "news_loop [] news_list = news_list"
| "news_loop (a # articles) news_list =
     (let title = strip (or_empty (raw_title a));
          desc = or_empty (raw_description a);
          url = or_empty (raw_url a)
      in if title = [] then news_loop articles news_list
         else news_loop articles (news_list @ [\<lparr>title = title, description = desc, url = url\<rparr>]))"

text \<open>
  \<open>data.get("articles", [])\<close>: the list, the empty list when the key is missing, and \<open>None\<close>
  when the value is \<open>null\<close>.
\<close>

definition get_articles :: "news_data \<Rightarrow> raw_article list option" where
  "get_articles data =
     (case data_articles data of Missing \<Rightarrow> Some [] | Null \<Rightarrow> None | Present as \<Rightarrow> Some as)"

text \<open>
  \<open>resp.raise_for_status()\<close> raises for a status code from 400 to 599. \<open>for a in articles\<close>
  raises \<open>TypeError\<close> when \<open>articles\<close> is \<open>None\<close>; the summary line has been printed by then.
\<close>

definition fetch_korean_stock_news ::
  "'w env \<Rightarrow> nat \<Rightarrow> 'w state \<Rightarrow> (error + article list) \<times> 'w state" where
  "fetch_korean_stock_news env top_n st =
     (if unset (NEWS_API_KEY env) then (Inl (RuntimeError news_key_missing), st)
      else
        (let key = the (NEWS_API_KEY env);
             (resp, w) = requests_get env news_url key top_n (world st);
             st1 = emit (HttpGet news_url key top_n) (st\<lparr>world := w\<rparr>)
         in if 400 \<le> get_status_code resp \<and> get_status_code resp < 600
            then (Inl (HTTPError (get_status_code resp)), st1)
            else
              (let data = get_json resp;
                   st2 = print (api_summary_label @ [SPACE] @ str_opt id (data_status data) @
                                [SPACE] @ str_opt str_nat (data_totalResults data)) st1;
                   articles = get_articles data
               in case articles of
                    None \<Rightarrow> (Inl TypeError, st2)
                  | Some as \<Rightarrow> (Inr (news_loop as []), st2))))"

text \<open>
  The article that the loop builds from a candidate it keeps, and the value of \<open>articles\<close>
  that the search hands to the loop in a given state (\<open>None\<close> as in Python).
\<close>

definition to_article :: "raw_article \<Rightarrow> article" where
  "to_article a =
     \<lparr>title = strip (or_empty (raw_title a)),
      description = or_empty (raw_description a),
      url = or_empty (raw_url a)\<rparr>"

definition candidates_of :: "'w env \<Rightarrow> nat \<Rightarrow> 'w state \<Rightarrow> raw_article list option" where
  "candidates_of env top_n st =
     get_articles
       (get_json (fst (requests_get env news_url (the (NEWS_API_KEY env)) top_n (world st))))"

section \<open>Building the message\<close>

definition digest_title :: pystr where
  "digest_title =
     [42, 42, 50724, 45720, 51032, 32, 54620, 44397, 32, 51452, 49885, 32] @ ascii ''TOP 5 '' @
     [45684, 49828, 42, 42, NL]"

definition header_ko :: pystr where
  "header_ko = ascii ''=== '' @ [127472, 127479, 32, 54620, 44397, 50612] @ ascii '' ===''"

definition header_en :: pystr where
  "header_en = ascii ''=== '' @ [127482, 127480] @ ascii '' English ===''"

definition header_zh :: pystr where
  "header_zh =
     ascii ''=== '' @ [127464, 127475, 32, 20013, 25991, 40, 31616, 20307, 41] @ ascii '' ===''"

definition summary_label_ko :: pystr where
  "summary_label_ko = ascii ''   - '' @ [50836, 50557] @ ascii '': ''"

definition summary_label_en :: pystr where
  "summary_label_en = ascii ''   - Summary: ''"

definition summary_label_zh :: pystr where
  "summary_label_zh = ascii ''   - '' @ [25688, 35201] @ ascii '': ''"

definition link_label :: pystr where
  "link_label = ascii ''   '' @ [47553, 53356] @ ascii '': ''"

text \<open>
  The lines that one pass of each of the three loops of \<open>build_message\<close> appends for the
  article \<open>n\<close> numbered \<open>i\<close>. Only the first loop has the branch on the url.
\<close>

definition entry_ko :: "nat \<Rightarrow> article \<Rightarrow> pystr list" where
  "entry_ko i n =
     [str_nat i @ ascii ''. '' @ title n] @
     (if description n \<noteq> [] then [summary_label_ko @ strip (replace_nl (description n))] else []) @
     (if url n \<noteq> [] then [link_label @ url n] else []) @
     [[]]"

definition entry_en :: "nat \<Rightarrow> article \<Rightarrow> pystr list" where
  "entry_en i n =
     [str_nat i @ ascii ''. '' @ title n] @
     (if description n \<noteq> [] then [summary_label_en @ strip (replace_nl (description n))] else []) @
     [[]]"

definition entry_zh :: "nat \<Rightarrow> article \<Rightarrow> pystr list" where
  "entry_zh i n =
     [str_nat i @ ascii ''. '' @ title n] @
     (if description n \<noteq> [] then [summary_label_zh @ strip (replace_nl (description n))] else []) @
     [[]]"

text \<open>\<open>for i, n in enumerate(news, start=...)\<close>, appending the lines of each pass.\<close>

fun enumerate_loop ::
  "(nat \<Rightarrow> article \<Rightarrow> pystr list) \<Rightarrow> nat \<Rightarrow> article list \<Rightarrow> pystr list \<Rightarrow> pystr list" where
  "enumerate_loop entry i [] lines = lines"
| "enumerate_loop entry i (n # news) lines = enumerate_loop entry (Suc i) news (lines @ entry i n)"

text \<open>The list \<open>lines\<close> of \<open>build_message\<close> as it stands before the final join.\<close>

definition build_lines :: "article list \<Rightarrow> article list \<Rightarrow> article list \<Rightarrow> pystr list" where
  "build_lines ko_news en_news zh_news =
     (let lines = [digest_title];
          lines = enumerate_loop entry_ko 1 ko_news (lines @ [header_ko]);
          lines = enumerate_loop entry_en 1 en_news (lines @ [header_en]);
          lines = enumerate_loop entry_zh 1 zh_news (lines @ [header_zh])
      in lines)"

definition build_message :: "article list \<Rightarrow> article list \<Rightarrow> article list \<Rightarrow> pystr" where
  "build_message ko_news en_news zh_news = join_nl (build_lines ko_news en_news zh_news)"

section \<open>Sending to the webhook\<close>

definition webhook_missing :: pystr where
  "webhook_missing =
     [54872, 44221, 48320, 49688, 32] @ ascii ''DISCORD_WEBHOOK_URL'' @
     [32, 51060, 32, 49444, 51221, 46104, 50612, 32, 51080, 51648, 32, 50506, 49845, 45768, 45796, 46]"

definition post_failed_label :: pystr where
  "post_failed_label = [46356, 49828, 53076, 46300, 32, 51204, 49569, 32, 49892, 54056, 58]"

definition post_ok_line :: pystr where
  "post_ok_line = [46356, 49828, 53076, 46300, 32, 51204, 49569, 32, 49457, 44277]"

definition max_len :: nat where
  "max_len = 1900"

text \<open>
  \<open>_post_discord\<close> reads the webhook URL from the environment; \<open>send_to_discord\<close>, its only
  caller, reaches it only when the URL is set. The answer of the webhook decides nothing but
  the line that is printed.
\<close>

definition post_discord :: "'w env \<Rightarrow> pystr \<Rightarrow> 'w state \<Rightarrow> 'w state" where
  "post_discord env content st =
     (let hook = the (DISCORD_WEBHOOK_URL env);
          (resp, w) = requests_post env hook content (world st);
          st1 = emit (HttpPost hook content) (st\<lparr>world := w\<rparr>)
      in if post_status_code resp \<noteq> 200 \<and> post_status_code resp \<noteq> 204
         then print (post_failed_label @ [SPACE] @ str_nat (post_status_code resp) @ [SPACE] @
                     post_text resp) st1
         else print post_ok_line st1)"

text \<open>The loop over the lines: it returns the buffer left at the end.\<close>

fun send_loop :: "'w env \<Rightarrow> pystr list \<Rightarrow> pystr \<Rightarrow> 'w state \<Rightarrow> pystr \<times> 'w state" where
  "send_loop env [] buffer st = (buffer, st)"
| "send_loop env (line # lines) buffer st =
     (if length buffer + length line + 1 > max_len
      then send_loop env lines (line @ [NL]) (post_discord env buffer st)
      else send_loop env lines (buffer @ line @ [NL]) st)"

definition send_to_discord :: "'w env \<Rightarrow> pystr \<Rightarrow> 'w state \<Rightarrow> (error + unit) \<times> 'w state" where
  "send_to_discord env message st =
     (if unset (DISCORD_WEBHOOK_URL env) then (Inl (RuntimeError webhook_missing), st)
      else
        (let lines = split_nl message;
             (buffer, st1) = send_loop env lines [] st
         in if strip buffer \<noteq> [] then (Inr (), post_discord env buffer st1)
            else (Inr (), st1)))"

section \<open>The run\<close>

definition start_line :: pystr where
  "start_line =
     [54620, 44397, 32, 51452, 49885, 32, 44288, 47144, 32] @ ascii ''Top '' @
     [45684, 49828, 32, 49688, 51665, 32, 48143, 32, 46356, 49828, 53076, 46300, 32, 51204,
      49569, 32, 49884, 51089] @ ascii ''...''"

definition no_news_line :: pystr where
  "no_news_line = [45684, 49828, 44032, 32, 50630, 49845, 45768, 45796, 46]"

definition done_line :: pystr where
  "done_line = [51089, 50629, 32, 50756, 47308]"

definition main :: "'w env \<Rightarrow> 'w state \<Rightarrow> (error + unit) \<times> 'w state" where
  "main env st =
     (let st0 = print start_line st
      in case fetch_korean_stock_news env TOP_N st0 of
           (Inl e, st1) \<Rightarrow> (Inl e, st1)
         | (Inr ko_news, st1) \<Rightarrow>
             if ko_news = [] then (Inr (), print no_news_line st1)
             else
               (let (en_news, st2) = translate_news_list env ko_news (ascii ''en'') st1;
                    (zh_news, st3) =
                      translate_news_list env ko_news (ascii ''chinese (simplified)'') st2;
                    message = build_message ko_news en_news zh_news
                in case send_to_discord env message st3 of
                     (Inl e, st4) \<Rightarrow> (Inl e, st4)
                   | (Inr u, st4) \<Rightarrow> (Inr (), print done_line st4)))"

section \<open>Reading the trace\<close>

text \<open>The chunks posted to the webhook and the texts handed to the translator, in order.\<close>

fun webhook_calls :: "event list \<Rightarrow> pystr list" where
  "webhook_calls [] = []"
| "webhook_calls (HttpPost hook content # es) = content # webhook_calls es"
| "webhook_calls (e # es) = webhook_calls es"

fun translate_calls :: "event list \<Rightarrow> (pystr \<times> pystr) list" where
  "translate_calls [] = []"
| "translate_calls (TranslateCall target text # es) = (target, text) # translate_calls es"
| "translate_calls (e # es) = translate_calls es"

text \<open>
  The chunks that one call of \<open>send_to_discord\<close> delivers: the webhook calls it adds to the
  trace it starts from.
\<close>

definition delivered :: "'w env \<Rightarrow> pystr \<Rightarrow> 'w state \<Rightarrow> pystr list" where
  "delivered env message st =
     drop (length (webhook_calls (trace st)))
       (webhook_calls (trace (snd (send_to_discord env message st))))"

text \<open>
  The two results of the loop of \<open>send_to_discord\<close> read off without the world: the buffers
  it posts, in order, and the buffer it ends with. The loop never looks at what the webhook
  answers, so both depend on the lines alone (\<open>send_loop_pure\<close> below).
\<close>

fun loop_posts :: "pystr list \<Rightarrow> pystr \<Rightarrow> pystr list" where
  "loop_posts [] buffer = []"
| "loop_posts (line # lines) buffer =
     (if length buffer + length line + 1 > max_len
      then buffer # loop_posts lines (line @ [NL])
      else loop_posts lines (buffer @ line @ [NL]))"

fun loop_rest :: "pystr list \<Rightarrow> pystr \<Rightarrow> pystr" where
  "loop_rest [] buffer = buffer"
| "loop_rest (line # lines) buffer =
     (if length buffer + length line + 1 > max_len
      then loop_rest lines (line @ [NL])
      else loop_rest lines (buffer @ line @ [NL]))"

text \<open>A line followed by its line feed, and a run of such lines: what the buffer is made of.\<close>

definition render :: "pystr list \<Rightarrow> pystr" where
  "render ls = concat (map (\<lambda>l. l @ [NL]) ls)"

text \<open>
  The line content of a chunk, in the words of the specification: the pieces of the chunk
  between line feeds, the piece after the last line feed left out.
\<close>

definition chunk_lines :: "pystr \<Rightarrow> pystr list" where
  "chunk_lines c = butlast (split_nl c)"

text \<open>A line of the digest is a summary line or a link line by the label it starts with.\<close>

definition is_summary_line :: "pystr \<Rightarrow> bool" where
  "is_summary_line l \<longleftrightarrow>
     prefix summary_label_ko l \<or> prefix summary_label_en l \<or> prefix summary_label_zh l"

definition is_link_line :: "pystr \<Rightarrow> bool" where
  "is_link_line l \<longleftrightarrow> prefix link_label l"

text \<open>
  The lines of one language section below its header: the entries of the articles, numbered
  from 1, one after the other.
\<close>

definition section_lines :: "(nat \<Rightarrow> article \<Rightarrow> pystr list) \<Rightarrow> article list \<Rightarrow> pystr list" where
  "section_lines entry news =
     concat (map (\<lambda>(i, n). entry i n) (zip [1..<Suc (length news)] news))"

text \<open>Two articles for concrete digests: one with neither summary nor link, one with both.\<close>

definition plain_article :: article where
  "plain_article = \<lparr>title = ascii ''KOSPI'', description = [], url = []\<rparr>"

definition full_article :: article where
  "full_article = \<lparr>title = ascii ''KOSPI'', description = ascii ''up'', url = ascii ''http://x/1''\<rparr>"

text \<open>
  A world in which nothing varies, for concrete runs: the search answers 200 with the given
  candidates, the translator answers with the text reversed and the webhook answers 204.
\<close>

definition fixed_env :: "raw_article list \<Rightarrow> unit env" where
  "fixed_env candidates =
     \<lparr>NEWS_API_KEY = Some (ascii ''k''),
      DISCORD_WEBHOOK_URL = Some (ascii ''https://discord.example/hook''),
      requests_get = (\<lambda>u k n w.
        (\<lparr>get_status_code = 200,
          get_json = \<lparr>data_status = Some (ascii ''ok''), data_totalResults = Some (length candidates),
                      data_articles = Present candidates\<rparr>\<rparr>, w)),
      google_translate = (\<lambda>target text w. (Inr (rev text), w)),
      requests_post = (\<lambda>u c w. (\<lparr>post_status_code = 204, post_text = []\<rparr>, w))\<rparr>"

definition start_state :: "unit state" where
  "start_state = \<lparr>world = (), trace = []\<rparr>"

text \<open>The same world with a translator that always raises, and with both credentials missing.\<close>

definition failing_env :: "unit env" where
  "failing_env =
     (fixed_env [])\<lparr>google_translate :=
       (\<lambda>target text w. (Inl (Exception (ascii ''timeout'')), w))\<rparr>"

definition bare_env :: "unit env" where
  "bare_env = (fixed_env [])\<lparr>NEWS_API_KEY := None, DISCORD_WEBHOOK_URL := Some []\<rparr>"

definition blank_candidate :: raw_article where
  "blank_candidate =
     \<lparr>raw_title = Some (ascii ''  ''), raw_description = Some (ascii ''d''), raw_url = None\<rparr>"

definition kept_candidate :: raw_article where
  "kept_candidate =
     \<lparr>raw_title = Some (ascii '' ab ''), raw_description = None, raw_url = Some (ascii ''u'')\<rparr>"

text \<open>
  A title that carries two more lines after a line feed, each starting with a label of the
  digest; the article that has it, with neither description nor url; and a world in which
  the search answers with that title and the translator always raises.
\<close>

definition injected_title :: pystr where
  "injected_title =
     ascii ''x'' @ [NL] @ summary_label_en @ ascii ''s'' @ [NL] @ link_label @ ascii ''http://e''"

definition injected_article :: article where
  "injected_article = \<lparr>title = injected_title, description = [], url = []\<rparr>"

definition injecting_env :: "unit env" where
  "injecting_env =
     (fixed_env [\<lparr>raw_title = Some injected_title, raw_description = None, raw_url = None\<rparr>])
       \<lparr>google_translate := (\<lambda>target text w. (Inl (Exception (ascii ''timeout'')), w))\<rparr>"

section \<open>Auxiliary facts\<close>

lemma ascii_simps: "ascii [] = []" "ascii (c # cs) = of_char c # ascii cs"
  by (simp_all add: ascii_def)

lemma trace_print: "trace (print s st) = trace st @ [Print s]"
  by (simp add: print_def emit_def)

lemma webhook_calls_append: "webhook_calls (es @ fs) = webhook_calls es @ webhook_calls fs"
  by (induction es rule: webhook_calls.induct) simp_all

lemma translate_calls_append: "translate_calls (es @ fs) = translate_calls es @ translate_calls fs"
  by (induction es rule: translate_calls.induct) simp_all

lemma dropWhile_isspace_Nil: "dropWhile isspace s = [] \<longleftrightarrow> list_all isspace s"
  by (simp add: list_all_iff)

lemma strip_empty_iff: "strip s = [] \<longleftrightarrow> list_all isspace s"
proof (cases "dropWhile isspace s = []")
  case True
  have "strip s = []"
    unfolding strip_def True by simp
  moreover have "list_all isspace s"
    using True dropWhile_isspace_Nil [of s] by blast
  ultimately show ?thesis by simp
next
  case False
  then have "\<not> isspace (hd (dropWhile isspace s))"
    by (rule hd_dropWhile)
  moreover have "hd (dropWhile isspace s) \<in> set (rev (dropWhile isspace s))"
    using False by simp
  ultimately have "dropWhile isspace (rev (dropWhile isspace s)) \<noteq> []"
    by (auto simp: dropWhile_eq_Nil_conv)
  then have "strip s \<noteq> []"
    by (simp add: strip_def)
  moreover have "\<not> list_all isspace s"
    using False dropWhile_isspace_Nil [of s] by blast
  ultimately show ?thesis by simp
qed

lemma strip_not_blank: "\<not> list_all isspace s \<Longrightarrow> \<not> list_all isspace (strip s)"
proof -
  assume "\<not> list_all isspace s"
  then have ne: "dropWhile isspace s \<noteq> []"
    using dropWhile_isspace_Nil [of s] by blast
  then have h: "\<not> isspace (hd (dropWhile isspace s))"
    by (rule hd_dropWhile)
  let ?r = "rev (dropWhile isspace s)"
  have "hd (dropWhile isspace s) \<in> set ?r"
    using ne by simp
  then have "dropWhile isspace ?r \<noteq> []"
    using h by (auto simp: dropWhile_eq_Nil_conv)
  then have "\<not> isspace (hd (dropWhile isspace ?r))"
    by (rule hd_dropWhile)
  moreover have "hd (dropWhile isspace ?r) \<in> set (strip s)"
    using \<open>dropWhile isspace ?r \<noteq> []\<close> by (simp add: strip_def)
  ultimately show ?thesis
    by (auto simp: list_all_iff)
qed

section \<open>The translator\<close>

text \<open>
  Claim C3. For every text and target language, if the call to the translation provider
  raises an exception, \<open>translate_text\<close> returns the text it was given. The function
  returns a value in every case (its result type has no error), so the failure does not
  stop the run. When the text is not empty, which is when the call is made at all, the
  trace gains the call and then one printed line: the label followed by the exception's text.
\<close>

theorem translate_text_fallback:
  assumes "google_translate env target_lang text (world st) = (Inl (Exception e), w)"
  shows "fst (translate_text env text target_lang st) = text \<and>
         (text \<noteq> [] \<longrightarrow>
            snd (translate_text env text target_lang st) =
              st\<lparr>world := w,
                 trace := trace st @ [TranslateCall target_lang text,
                                      Print (translation_error_label @ e)]\<rparr>)"
  using assms by (simp add: translate_text_def emit_def print_def)

theorem translate_text_fallback_witness:
  "translate_text failing_env (ascii ''abc'') (ascii ''en'') start_state =
     (ascii ''abc'',
      \<lparr>world = (),
       trace = [TranslateCall (ascii ''en'') (ascii ''abc''),
                Print (translation_error_label @ ascii ''timeout'')]\<rparr>)"
  using translate_text_fallback [of failing_env "ascii ''en''" "ascii ''abc''" start_state "ascii ''timeout''" "()"]
  by (simp add: failing_env_def fixed_env_def start_state_def ascii_def prod_eq_iff)

text \<open>
  Claim C4. For every target language, \<open>translate_text\<close> applied to the empty string returns
  the empty string and leaves the state as it was: no call to the translation provider (nor
  any other event) is recorded and the world is untouched.
\<close>

theorem translate_text_empty:
  "translate_text env [] target_lang st = ([], st)"
  by (simp add: translate_text_def)

lemma translate_loop_acc:
  "translate_loop env lang items acc st =
     (acc @ fst (translate_loop env lang items [] st), snd (translate_loop env lang items [] st))"
proof (induction items arbitrary: acc st)
  case Nil
  show ?case by simp
next
  case (Cons item items)
  obtain t st' where step: "translate_item env item lang st = (t, st')"
    by (cases "translate_item env item lang st")
  have "translate_loop env lang (item # items) acc st = translate_loop env lang items (acc @ [t]) st'"
    by (simp add: step)
  also have "\<dots> = ((acc @ [t]) @ fst (translate_loop env lang items [] st'),
                  snd (translate_loop env lang items [] st'))"
    by (rule Cons.IH)
  also have "\<dots> = (acc @ fst (translate_loop env lang items [t] st'),
                  snd (translate_loop env lang items [t] st'))"
    using Cons.IH [of "[t]" st'] by simp
  finally show ?case by (simp add: step)
qed

lemma translate_news_list_Nil: "translate_news_list env [] lang st = ([], st)"
  by (simp add: translate_news_list_def)

lemma translate_news_list_Cons:
  "translate_news_list env (item # items) lang st =
     (fst (translate_item env item lang st) #
        fst (translate_news_list env items lang (snd (translate_item env item lang st))),
      snd (translate_news_list env items lang (snd (translate_item env item lang st))))"
proof -
  obtain t st' where step: "translate_item env item lang st = (t, st')"
    by (cases "translate_item env item lang st")
  show ?thesis
    using translate_loop_acc [of env lang items "[t]" st']
    by (simp add: translate_news_list_def step)
qed

lemma url_translate_item: "url (fst (translate_item env item lang st)) = url item"
  by (simp add: translate_item_def Let_def split: prod.splits)

lemma length_translate_news_list:
  "length (fst (translate_news_list env news lang st)) = length news"
  by (induction news arbitrary: st) (simp_all add: translate_news_list_Nil translate_news_list_Cons)

lemma nth_translate_news_list:
  "i < length news \<Longrightarrow>
     fst (translate_news_list env news lang st) ! i =
       fst (translate_item env (news ! i) lang (snd (translate_news_list env (take i news) lang st)))"
proof (induction news arbitrary: i st)
  case Nil
  then show ?case by simp
next
  case (Cons item items)
  show ?case
  proof (cases i)
    case 0
    then show ?thesis by (simp add: translate_news_list_Cons translate_news_list_Nil)
  next
    case (Suc j)
    with Cons.prems have "j < length items" by simp
    from Cons.IH [OF this] Suc show ?thesis
      by (simp add: translate_news_list_Cons)
  qed
qed

text \<open>
  Claim C5. For every article list and target language, \<open>translate_news_list\<close> returns a
  list of the same length as its input; the entry at index \<open>i\<close> is what one pass of the loop
  makes of the input article at index \<open>i\<close>, in the state left by the passes before it; and the
  url at every index is the url of the input article, untouched by the translator.
\<close>

theorem translate_news_list_parallel:
  "length (fst (translate_news_list env news dest_lang st)) = length news \<and>
   map url (fst (translate_news_list env news dest_lang st)) = map url news \<and>
   (\<forall>i < length news.
      fst (translate_news_list env news dest_lang st) ! i =
        fst (translate_item env (news ! i) dest_lang
               (snd (translate_news_list env (take i news) dest_lang st))) \<and>
      url (fst (translate_news_list env news dest_lang st) ! i) = url (news ! i))"
proof -
  have "\<forall>i < length news. url (fst (translate_news_list env news dest_lang st) ! i) = url (news ! i)"
    by (simp add: nth_translate_news_list url_translate_item)
  then have "map url (fst (translate_news_list env news dest_lang st)) = map url news"
    by (simp add: list_eq_iff_nth_eq length_translate_news_list)
  then show ?thesis
    by (simp add: length_translate_news_list nth_translate_news_list url_translate_item)
qed

theorem translate_news_list_parallel_witness:
  "length (fst (translate_news_list (fixed_env [])
       [\<lparr>title = ascii ''ab'', description = [], url = ascii ''u''\<rparr>,
        \<lparr>title = ascii ''cd'', description = ascii ''xy'', url = ascii ''v''\<rparr>]
       (ascii ''en'') start_state)) = 2 \<and>
   map url (fst (translate_news_list (fixed_env [])
       [\<lparr>title = ascii ''ab'', description = [], url = ascii ''u''\<rparr>,
        \<lparr>title = ascii ''cd'', description = ascii ''xy'', url = ascii ''v''\<rparr>]
       (ascii ''en'') start_state)) = [ascii ''u'', ascii ''v''] \<and>
   fst (translate_news_list (fixed_env [])
       [\<lparr>title = ascii ''ab'', description = [], url = ascii ''u''\<rparr>,
        \<lparr>title = ascii ''cd'', description = ascii ''xy'', url = ascii ''v''\<rparr>]
       (ascii ''en'') start_state) ! 1 =
     \<lparr>title = ascii ''dc'', description = ascii ''yx'', url = ascii ''v''\<rparr>"
  using translate_news_list_parallel [of "fixed_env []"
       "[\<lparr>title = ascii ''ab'', description = [], url = ascii ''u''\<rparr>,
        \<lparr>title = ascii ''cd'', description = ascii ''xy'', url = ascii ''v''\<rparr>]"
       "ascii ''en''" start_state]
  by (simp add: translate_news_list_def translate_item_def translate_text_def fixed_env_def
      start_state_def emit_def ascii_simps)

section \<open>The fetcher\<close>

lemma news_loop_acc: "news_loop articles acc = acc @ news_loop articles []"
proof (induction articles arbitrary: acc)
  case Nil
  show ?case by simp
next
  case (Cons a articles)
  show ?case
    using Cons.IH [of "acc @ [\<lparr>title = strip (or_empty (raw_title a)),
        description = or_empty (raw_description a), url = or_empty (raw_url a)\<rparr>]"]
      Cons.IH [of "[\<lparr>title = strip (or_empty (raw_title a)),
        description = or_empty (raw_description a), url = or_empty (raw_url a)\<rparr>]"]
      Cons.IH [of acc]
    by (simp add: Let_def)
qed

lemma news_loop_filter:
  "news_loop articles [] =
     map to_article (filter (\<lambda>a. \<not> list_all isspace (or_empty (raw_title a))) articles)"
proof (induction articles)
  case Nil
  show ?case by simp
next
  case (Cons a articles)
  show ?case
    using Cons.IH news_loop_acc [of articles "[to_article a]"]
    by (simp add: Let_def strip_empty_iff to_article_def)
qed

lemma fetch_result:
  "fst (fetch_korean_stock_news env top_n st) = Inr news \<Longrightarrow>
     \<exists>cs. candidates_of env top_n st = Some cs \<and> news = news_loop cs []"
  by (auto simp: fetch_korean_stock_news_def candidates_of_def Let_def
      split: if_splits prod.splits option.splits)

text \<open>When \<open>articles\<close> is \<open>null\<close> the loop raises and no list is returned.\<close>

lemma fetch_null_articles:
  assumes "\<not> unset (NEWS_API_KEY env)"
    and "requests_get env news_url (the (NEWS_API_KEY env)) top_n (world st) = (resp, w)"
    and "\<not> (400 \<le> get_status_code resp \<and> get_status_code resp < 600)"
    and "data_articles (get_json resp) = Null"
  shows "fst (fetch_korean_stock_news env top_n st) = Inl TypeError"
  using assms by (simp add: fetch_korean_stock_news_def Let_def get_articles_def)

text \<open>
  Claim C6. When the fetcher returns a list, the value of \<open>articles\<close> was a list of candidates,
  and the result is made of exactly the candidates whose title is not blank (empty, missing
  or only whitespace), in their order, each with its title stripped; so every article in it
  has a title that is not empty and not blank. The list is the fetcher's result: translation
  and formatting only ever see what is in it.
\<close>

theorem fetch_drops_blank_titles:
  assumes "fst (fetch_korean_stock_news env top_n st) = Inr news"
  shows "\<exists>cs. candidates_of env top_n st = Some cs \<and>
              news = map to_article
                       (filter (\<lambda>a. \<not> list_all isspace (or_empty (raw_title a))) cs) \<and>
              (\<forall>n \<in> set news. title n \<noteq> [] \<and> \<not> list_all isspace (title n))"
proof -
  from fetch_result [OF assms] obtain cs where
    cs: "candidates_of env top_n st = Some cs" and "news = news_loop cs []"
    by blast
  then have eq: "news = map to_article
                   (filter (\<lambda>a. \<not> list_all isspace (or_empty (raw_title a))) cs)"
    by (simp add: news_loop_filter)
  have "title n \<noteq> [] \<and> \<not> list_all isspace (title n)" if "n \<in> set news" for n
  proof -
    from that eq obtain a where a: "n = to_article a" "\<not> list_all isspace (or_empty (raw_title a))"
      by auto
    then have "strip (or_empty (raw_title a)) \<noteq> []"
      by (simp add: strip_empty_iff)
    moreover have "\<not> list_all isspace (strip (or_empty (raw_title a)))"
      using a(2) by (rule strip_not_blank)
    ultimately show ?thesis by (simp add: a(1) to_article_def)
  qed
  with cs eq show ?thesis by blast
qed

theorem fetch_drops_blank_titles_witness:
  "fst (fetch_korean_stock_news (fixed_env [blank_candidate, kept_candidate]) 5 start_state) =
     Inr [\<lparr>title = ascii ''ab'', description = [], url = ascii ''u''\<rparr>] \<and>
   title \<lparr>title = ascii ''ab'', description = [], url = ascii ''u''\<rparr> \<noteq> []"
proof -
  have h: "fst (fetch_korean_stock_news (fixed_env [blank_candidate, kept_candidate]) 5 start_state) =
     Inr [\<lparr>title = ascii ''ab'', description = [], url = ascii ''u''\<rparr>]"
    by (simp add: fetch_korean_stock_news_def fixed_env_def start_state_def unset_def Let_def
        get_articles_def blank_candidate_def kept_candidate_def or_empty_def strip_def
        isspace_def ascii_simps split: prod.splits)
  from fetch_drops_blank_titles [OF h] h show ?thesis
    by auto
qed

text \<open>
  Claim C7. If the news-API key is unset, \<open>fetch_korean_stock_news\<close> raises and the state is
  unchanged: nothing was sent and nothing printed. If the webhook URL is unset,
  \<open>send_to_discord\<close> does the same. The exception is a \<open>RuntimeError\<close> (the source's class
  for the specification's ConfigurationError) whose message contains the name of the
  variable that is missing.
\<close>

theorem missing_credential:
  "(unset (NEWS_API_KEY env) \<longrightarrow>
      fetch_korean_stock_news env top_n st = (Inl (RuntimeError news_key_missing), st)) \<and>
   (unset (DISCORD_WEBHOOK_URL env) \<longrightarrow>
      send_to_discord env message st = (Inl (RuntimeError webhook_missing), st)) \<and>
   sublist (ascii ''NEWS_API_KEY'') news_key_missing \<and>
   sublist (ascii ''DISCORD_WEBHOOK_URL'') webhook_missing"
proof -
  have "sublist (ascii ''NEWS_API_KEY'') news_key_missing"
    unfolding news_key_missing_def by (rule sublist_appendI)
  moreover have "sublist (ascii ''DISCORD_WEBHOOK_URL'') webhook_missing"
    unfolding webhook_missing_def by (rule sublist_appendI)
  ultimately show ?thesis
    by (simp add: fetch_korean_stock_news_def send_to_discord_def)
qed

theorem missing_credential_witness:
  "fetch_korean_stock_news bare_env 5 start_state =
     (Inl (RuntimeError news_key_missing), start_state) \<and>
   send_to_discord bare_env (ascii ''hi'') start_state =
     (Inl (RuntimeError webhook_missing), start_state)"
  using missing_credential [of bare_env 5 start_state "ascii ''hi''"]
  by (simp add: bare_env_def unset_def)

section \<open>Properties of the run\<close>

lemma fetch_trace:
  "\<exists>es. trace (snd (fetch_korean_stock_news env top_n st)) = trace st @ es \<and>
        webhook_calls es = [] \<and> translate_calls es = []"
  by (auto simp: fetch_korean_stock_news_def Let_def emit_def print_def
      split: prod.splits option.splits)

text \<open>
  Claim C8. If the fetch step returns no article, \<open>main\<close> returns normally; after the fetch
  it only prints the line that says there is no news. The run adds no call of the translator
  and no call of the webhook to the trace. (The digest is a value that only \<open>send_to_discord\<close>
  could make visible; \<open>main\<close> returns before it is computed.)
\<close>

theorem main_no_news:
  assumes "fst (fetch_korean_stock_news env TOP_N (print start_line st)) = Inr []"
  shows "main env st =
           (Inr (), print no_news_line (snd (fetch_korean_stock_news env TOP_N (print start_line st)))) \<and>
         translate_calls (trace (snd (main env st))) = translate_calls (trace st) \<and>
         webhook_calls (trace (snd (main env st))) = webhook_calls (trace st) \<and>
         last (trace (snd (main env st))) = Print no_news_line"
proof -
  let ?f = "fetch_korean_stock_news env TOP_N (print start_line st)"
  have m: "main env st = (Inr (), print no_news_line (snd ?f))"
    using assms by (cases ?f) (simp add: main_def Let_def)
  obtain es where es: "trace (snd ?f) = trace (print start_line st) @ es"
    "webhook_calls es = []" "translate_calls es = []"
    using fetch_trace by blast
  have t: "trace (snd (main env st)) = trace st @ [Print start_line] @ es @ [Print no_news_line]"
    by (simp add: m es(1) trace_print)
  have tc: "translate_calls (trace (snd (main env st))) = translate_calls (trace st)"
    by (simp add: t translate_calls_append es(3))
  have wc: "webhook_calls (trace (snd (main env st))) = webhook_calls (trace st)"
    by (simp add: t webhook_calls_append es(2))
  have la: "last (trace (snd (main env st))) = Print no_news_line"
    by (simp add: t)
  show ?thesis
    by (intro conjI m tc wc la)
qed

theorem main_no_news_witness:
  "main (fixed_env []) start_state =
     (Inr (),
      \<lparr>world = (),
       trace = [Print start_line,
                HttpGet news_url (ascii ''k'') 5,
                Print (api_summary_label @ [SPACE] @ ascii ''ok'' @ [SPACE] @ ascii ''0''),
                Print no_news_line]\<rparr>)"
proof -
  have h: "fst (fetch_korean_stock_news (fixed_env []) TOP_N (print start_line start_state)) = Inr []"
    by (simp add: fetch_korean_stock_news_def fixed_env_def unset_def Let_def ascii_simps
        get_articles_def split: prod.splits)
  from main_no_news [OF h] show ?thesis
    by (simp add: fetch_korean_stock_news_def fixed_env_def unset_def Let_def start_state_def
        print_def emit_def TOP_N_def str_opt_def str_nat.simps ascii_simps get_articles_def
        split: prod.splits)
qed

section \<open>The notifier\<close>

lemma webhook_calls_post_discord:
  "webhook_calls (trace (post_discord env content st)) = webhook_calls (trace st) @ [content]"
  by (simp add: post_discord_def Let_def emit_def print_def webhook_calls_append
      split: prod.splits)

lemma send_loop_pure:
  "fst (send_loop env lines buffer st) = loop_rest lines buffer \<and>
   webhook_calls (trace (snd (send_loop env lines buffer st))) =
     webhook_calls (trace st) @ loop_posts lines buffer"
proof (induction lines arbitrary: buffer st)
  case Nil
  show ?case by simp
next
  case (Cons line lines)
  show ?case
  proof (cases "length buffer + length line + 1 > max_len")
    case True
    then show ?thesis
      using Cons.IH [of "line @ [NL]" "post_discord env buffer st"]
      by (simp add: webhook_calls_post_discord)
  next
    case False
    then show ?thesis
      using Cons.IH [of "buffer @ line @ [NL]" st] by simp
  qed
qed

lemma delivered_pure:
  assumes "\<not> unset (DISCORD_WEBHOOK_URL env)"
  shows "delivered env message st =
           loop_posts (split_nl message) [] @
           (if strip (loop_rest (split_nl message) []) \<noteq> []
            then [loop_rest (split_nl message) []] else [])"
proof -
  obtain b st1 where l: "send_loop env (split_nl message) [] st = (b, st1)"
    by (cases "send_loop env (split_nl message) [] st")
  from send_loop_pure [of env "split_nl message" "[]" st] l
  have b: "b = loop_rest (split_nl message) []"
    and w: "webhook_calls (trace st1) = webhook_calls (trace st) @ loop_posts (split_nl message) []"
    by simp_all
  show ?thesis
    using assms
    by (simp add: delivered_def send_to_discord_def Let_def l w webhook_calls_post_discord b)
qed

lemma render_Nil: "render [] = []"
  by (simp add: render_def)

lemma render_Cons: "render (l # ls) = l @ NL # render ls"
  by (simp add: render_def)

lemma render_append: "render (xs @ ys) = render xs @ render ys"
  by (simp add: render_def)

lemma render_split_nl: "render (split_nl s) = s @ [NL]"
proof (induction s)
  case Nil
  show ?case by (simp add: render_def)
next
  case (Cons c s)
  then show ?case
    by (cases "split_nl s") (auto simp: render_def)
qed

lemma split_nl_not_Nil: "split_nl s \<noteq> []"
  by (induction s) (auto split: list.splits)

lemma split_nl_no_NL: "l \<in> set (split_nl s) \<Longrightarrow> NL \<notin> set l"
proof (induction s arbitrary: l)
  case Nil
  then show ?case by simp
next
  case (Cons c s)
  then show ?case
    by (cases "split_nl s") (auto split: if_splits)
qed

lemma split_nl_line: "NL \<notin> set l \<Longrightarrow> split_nl (l @ NL # r) = l # split_nl r"
  by (induction l) auto

lemma split_nl_single: "NL \<notin> set l \<Longrightarrow> split_nl l = [l]"
  by (induction l) auto

lemma split_nl_render: "\<forall>l \<in> set g. NL \<notin> set l \<Longrightarrow> split_nl (render g) = g @ [[]]"
  by (induction g) (simp_all add: render_Nil render_Cons split_nl_line)

lemma chunk_lines_render: "\<forall>l \<in> set g. NL \<notin> set l \<Longrightarrow> chunk_lines (render g) = g"
  by (simp add: chunk_lines_def split_nl_render)

lemma loop_groups:
  "buffer = render g \<Longrightarrow>
     \<exists>gs g'. g @ lines = concat gs @ g' \<and> loop_posts lines buffer = map render gs \<and>
             loop_rest lines buffer = render g'"
proof (induction lines arbitrary: buffer g)
  case Nil
  then have "g @ [] = concat [] @ g \<and> loop_posts [] buffer = map render [] \<and>
      loop_rest [] buffer = render g"
    by simp
  then show ?case by blast
next
  case (Cons line lines)
  show ?case
  proof (cases "length buffer + length line + 1 > max_len")
    case True
    have "line @ [NL] = render [line]"
      by (simp add: render_def)
    from Cons.IH [OF this] obtain gs g' where
      h: "[line] @ lines = concat gs @ g'" "loop_posts lines (line @ [NL]) = map render gs"
         "loop_rest lines (line @ [NL]) = render g'"
      by blast
    have a: "g @ line # lines = concat (g # gs) @ g'"
      using h(1) by simp
    have b: "loop_posts (line # lines) buffer = map render (g # gs)"
      using True h(2) Cons.prems by simp
    have c: "loop_rest (line # lines) buffer = render g'"
      using True h(3) by simp
    from a b c show ?thesis by blast
  next
    case False
    have "buffer @ line @ [NL] = render (g @ [line])"
      using Cons.prems by (simp add: render_def)
    from Cons.IH [OF this] obtain gs g' where
      h: "(g @ [line]) @ lines = concat gs @ g'"
         "loop_posts lines (buffer @ line @ [NL]) = map render gs"
         "loop_rest lines (buffer @ line @ [NL]) = render g'"
      by blast
    have a: "g @ line # lines = concat gs @ g'"
      using h(1) by simp
    have b: "loop_posts (line # lines) buffer = map render gs"
      using False h(2) by simp
    have c: "loop_rest (line # lines) buffer = render g'"
      using False h(3) by simp
    from a b c show ?thesis by blast
  qed
qed

lemma loop_bound:
  "\<forall>l \<in> set lines. length l < max_len \<Longrightarrow> length buffer \<le> max_len \<Longrightarrow>
     (\<forall>c \<in> set (loop_posts lines buffer). length c \<le> max_len) \<and>
     length (loop_rest lines buffer) \<le> max_len"
proof (induction lines arbitrary: buffer)
  case Nil
  then show ?case by simp
next
  case (Cons line lines)
  from Cons.prems have short: "\<forall>l \<in> set lines. length l < max_len" and line: "length line < max_len"
    by simp_all
  show ?case
  proof (cases "length buffer + length line + 1 > max_len")
    case True
    have "length (line @ [NL]) \<le> max_len"
      using line by simp
    from Cons.IH [OF short this] True Cons.prems(2) show ?thesis
      by simp
  next
    case False
    then have "length (buffer @ line @ [NL]) \<le> max_len"
      by simp
    from Cons.IH [OF short this] False show ?thesis
      by simp
  qed
qed

lemma loop_flushes:
  "max_len < length buffer + length (render lines) \<Longrightarrow> length buffer \<le> max_len \<Longrightarrow>
     loop_posts lines buffer \<noteq> []"
proof (induction lines arbitrary: buffer)
  case Nil
  then show ?case by (simp add: render_Nil)
next
  case (Cons line lines)
  show ?case
  proof (cases "length buffer + length line + 1 > max_len")
    case True
    then show ?thesis by simp
  next
    case False
    then have le: "length (buffer @ line @ [NL]) \<le> max_len"
      by simp
    have "max_len < length (buffer @ line @ [NL]) + length (render lines)"
      using Cons.prems(1) by (simp add: render_Cons)
    from Cons.IH [OF this le] False show ?thesis
      by simp
  qed
qed

lemma loop_rest_last:
  "lines \<noteq> [] \<Longrightarrow> \<exists>p. loop_rest lines buffer = p @ last lines @ [NL]"
proof (induction lines arbitrary: buffer)
  case Nil
  then show ?case by simp
next
  case (Cons line lines)
  show ?case
  proof (cases "lines = []")
    case True
    have "loop_rest [line] buffer = [] @ line @ [NL] \<or> loop_rest [line] buffer = buffer @ line @ [NL]"
      by simp
    then show ?thesis
      using True by auto
  next
    case False
    from Cons.IH [OF False] show ?thesis
      using False by simp
  qed
qed

lemma rest_not_blank:
  assumes "lines \<noteq> []" and "\<not> list_all isspace (last lines)"
  shows "strip (loop_rest lines buffer) \<noteq> []"
proof -
  from loop_rest_last [OF assms(1)] obtain p where "loop_rest lines buffer = p @ last lines @ [NL]"
    by blast
  then have "\<not> list_all isspace (loop_rest lines buffer)"
    using assms(2) by simp
  then show ?thesis
    by (simp add: strip_empty_iff)
qed

lemma fixed_env_webhook: "\<not> unset (DISCORD_WEBHOOK_URL (fixed_env cs))"
  by (simp add: fixed_env_def unset_def ascii_simps)

lemma blank_render: "list_all isspace (render g) \<Longrightarrow> list_all (list_all isspace) g"
  by (induction g) (simp_all add: render_Nil render_Cons)

lemma chunk_lines_groups:
  "\<forall>g \<in> set gs. \<forall>l \<in> set g. NL \<notin> set l \<Longrightarrow>
     concat (map chunk_lines (map render gs)) = concat gs"
  by (induction gs) (simp_all add: chunk_lines_render)

lemma two_lines:
  "NL \<notin> set a \<Longrightarrow> NL \<notin> set b \<Longrightarrow> split_nl (a @ NL # b) = [a, b]"
  by (simp add: split_nl_line split_nl_single)

lemma delivered_two_short:
  assumes "NL \<notin> set a" and "NL \<notin> set b" and "length a + 1 \<le> max_len"
    and "max_len < length a + length b + 2" and "length b < max_len"
  shows "delivered (fixed_env []) (a @ NL # b) start_state =
           (a @ [NL]) # (if list_all isspace (b @ [NL]) then [] else [b @ [NL]])"
  using assms
  by (simp add: delivered_pure [OF fixed_env_webhook] two_lines strip_empty_iff)

lemma delivered_one_long:
  assumes "NL \<notin> set a" and "max_len \<le> length a" and "\<not> list_all isspace a"
  shows "delivered (fixed_env []) a start_state = [[], a @ [NL]]"
  using assms
  by (simp add: delivered_pure [OF fixed_env_webhook] split_nl_single strip_empty_iff)

lemma no_flush_iff:
  "loop_posts lines buffer = [] \<longleftrightarrow>
     lines = [] \<or> length buffer + length (render lines) \<le> max_len"
proof (induction lines arbitrary: buffer)
  case Nil
  show ?case by simp
next
  case (Cons line lines)
  show ?case
  proof (cases "length buffer + length line + 1 > max_len")
    case True
    then show ?thesis by (simp add: render_Cons)
  next
    case False
    then show ?thesis
      using Cons.IH [of "buffer @ line @ [NL]"]
      by (cases "lines = []") (auto simp: render_Cons render_Nil)
  qed
qed

lemma no_flush_rest: "loop_posts lines buffer = [] \<Longrightarrow> loop_rest lines buffer = buffer @ render lines"
proof (induction lines arbitrary: buffer)
  case Nil
  show ?case by (simp add: render_Nil)
next
  case (Cons line lines)
  then show ?case
    by (simp add: render_Cons split: if_splits)
qed

lemma first_flush_fits:
  "loop_posts lines buffer \<noteq> [] \<Longrightarrow> length buffer \<le> max_len \<Longrightarrow>
     \<exists>pre line post. lines = pre @ line # post \<and>
       length (buffer @ render pre) \<le> max_len \<and>
       loop_posts lines buffer = (buffer @ render pre) # loop_posts post (line @ [NL]) \<and>
       loop_rest lines buffer = loop_rest post (line @ [NL])"
proof (induction lines arbitrary: buffer)
  case Nil
  then show ?case by simp
next
  case (Cons line lines)
  show ?case
  proof (cases "length buffer + length line + 1 > max_len")
    case True
    then have "line # lines = [] @ line # lines \<and>
       length (buffer @ render []) \<le> max_len \<and>
       loop_posts (line # lines) buffer = (buffer @ render []) # loop_posts lines (line @ [NL]) \<and>
       loop_rest (line # lines) buffer = loop_rest lines (line @ [NL])"
      using Cons.prems(2) by (simp add: render_Nil)
    then show ?thesis by blast
  next
    case False
    with Cons.prems have "loop_posts lines (buffer @ line @ [NL]) \<noteq> []"
      by simp
    moreover from False have "length (buffer @ line @ [NL]) \<le> max_len"
      by simp
    ultimately obtain pre l post where
      h: "lines = pre @ l # post"
         "length ((buffer @ line @ [NL]) @ render pre) \<le> max_len"
         "loop_posts lines (buffer @ line @ [NL]) =
            ((buffer @ line @ [NL]) @ render pre) # loop_posts post (l @ [NL])"
         "loop_rest lines (buffer @ line @ [NL]) = loop_rest post (l @ [NL])"
      using Cons.IH by blast
    have a: "line # lines = (line # pre) @ l # post"
      using h(1) by simp
    have f: "length (buffer @ render (line # pre)) \<le> max_len"
      using h(2) by (simp add: render_Cons)
    have b: "loop_posts (line # lines) buffer =
               (buffer @ render (line # pre)) # loop_posts post (l @ [NL])"
      using False h(3) by (simp add: render_Cons)
    have c: "loop_rest (line # lines) buffer = loop_rest post (l @ [NL])"
      using False h(4) by simp
    from a f b c show ?thesis by blast
  qed
qed

lemma render_ends: "ls \<noteq> [] \<Longrightarrow> NL \<in> set (butlast (l @ NL # render ls))"
proof -
  assume "ls \<noteq> []"
  then have "render ls \<noteq> []"
    by (cases ls) (simp_all add: render_Cons)
  then show ?thesis
    by (simp add: butlast_append)
qed

lemma blank_render_iff: "list_all isspace (render g) \<longleftrightarrow> list_all (list_all isspace) g"
  by (induction g) (simp_all add: render_Nil render_Cons isspace_def NL_def)

text \<open>
  How many chunks a message of more than 1900 characters is delivered in, read off the part
  of the message that follows the first chunk.
\<close>

lemma call_count:
  assumes conf: "\<not> unset (DISCORD_WEBHOOK_URL env)"
    and long: "max_len < length message"
  shows "delivered env message st \<noteq> [] \<and>
         (1 < length (delivered env message st) \<longleftrightarrow>
            \<not> list_all isspace (drop (length (hd (delivered env message st))) message) \<or>
            (NL \<in> set (drop (length (hd (delivered env message st))) message) \<and>
             max_len \<le> length (drop (length (hd (delivered env message st))) message)))"
proof -
  let ?lines = "split_nl message"
  have "max_len < length ([]::pystr) + length (render ?lines)"
    using long by (simp add: render_split_nl)
  then have "loop_posts ?lines [] \<noteq> []"
    by (rule loop_flushes) simp
  then obtain pre line post where
    l: "?lines = pre @ line # post"
    and p: "loop_posts ?lines [] = render pre # loop_posts post (line @ [NL])"
    and r: "loop_rest ?lines [] = loop_rest post (line @ [NL])"
    using first_flush_fits [of ?lines "[]"] by auto
  let ?d = "delivered env message st"
  have d: "?d = render pre # loop_posts post (line @ [NL]) @
                  (if strip (loop_rest post (line @ [NL])) \<noteq> []
                   then [loop_rest post (line @ [NL])] else [])"
    by (simp add: delivered_pure [OF conf] p r)
  have m: "message @ [NL] = render pre @ line @ NL # render post"
    using render_split_nl [of message] l by (simp add: render_append render_Cons)
  have "length (message @ [NL]) = length (render pre @ line @ NL # render post)"
    by (simp only: m)
  then have len: "length (render pre) \<le> length message"
    by simp
  let ?t = "drop (length (hd ?d)) message"
  have "drop (length (render pre)) (message @ [NL]) = line @ NL # render post"
    by (simp add: m)
  then have t: "?t @ [NL] = line @ NL # render post"
    using len by (simp add: d)
  then have t': "?t = butlast (line @ NL # render post)"
    by (metis butlast_snoc)
  have nl_line: "NL \<notin> set line"
    using split_nl_no_NL [of line message] l by simp
  have nl: "NL \<in> set ?t \<longleftrightarrow> post \<noteq> []"
  proof (cases "post = []")
    case True
    then have "?t = line"
      using t by (simp add: render_Nil)
    with nl_line True show ?thesis by simp
  next
    case False
    with render_ends [OF False, of line] t' show ?thesis by simp
  qed
  have "length (?t @ [NL]) = length (line @ NL # render post)"
    by (simp only: t)
  then have tl: "length ?t + 1 = length (line @ [NL]) + length (render post)"
    by simp
  have second: "loop_posts post (line @ [NL]) \<noteq> [] \<longleftrightarrow> NL \<in> set ?t \<and> max_len \<le> length ?t"
    using no_flush_iff [of post "line @ [NL]"] nl tl by auto
  have blank: "list_all isspace (?t @ [NL]) \<longleftrightarrow> list_all isspace ?t"
    by (simp add: isspace_def NL_def)
  show ?thesis
  proof (cases "loop_posts post (line @ [NL]) = []")
    case True
    then have "loop_rest post (line @ [NL]) = ?t @ [NL]"
      using no_flush_rest [OF True] t by simp
    then have "1 < length ?d \<longleftrightarrow> \<not> list_all isspace ?t"
      using True blank by (simp add: d strip_empty_iff)
    moreover have "\<not> (NL \<in> set ?t \<and> max_len \<le> length ?t)"
      using True second by blast
    ultimately show ?thesis
      using d by auto
  next
    case False
    then have "1 < length ?d"
      by (cases "loop_posts post (line @ [NL])") (simp_all add: d)
    moreover have "NL \<in> set ?t \<and> max_len \<le> length ?t"
      using False second by blast
    ultimately show ?thesis
      using d by auto
  qed
qed

text \<open>
  A long message that ends in a line that is not blank, or in such a line and one line feed,
  is delivered in more than one call.
\<close>

lemma two_calls_ending:
  assumes conf: "\<not> unset (DISCORD_WEBHOOK_URL env)"
    and long: "max_len < length message"
    and shape: "split_nl message = ls @ [p] \<or> split_nl message = ls @ [p, []]"
    and p: "\<not> list_all isspace p"
  shows "1 < length (delivered env message st)"
proof -
  let ?lines = "split_nl message"
  have total: "max_len + 1 < length (render ?lines)"
    using long by (simp add: render_split_nl)
  then have "max_len < length ([]::pystr) + length (render ?lines)"
    by simp
  then have "loop_posts ?lines [] \<noteq> []"
    by (rule loop_flushes) simp
  then obtain pre line post where
    l: "?lines = pre @ line # post"
    and f: "length (render pre) \<le> max_len"
    and ps: "loop_posts ?lines [] = render pre # loop_posts post (line @ [NL])"
    and r: "loop_rest ?lines [] = loop_rest post (line @ [NL])"
    using first_flush_fits [of ?lines "[]"] by auto
  let ?d = "delivered env message st"
  have d: "?d = render pre # loop_posts post (line @ [NL]) @
                  (if strip (loop_rest post (line @ [NL])) \<noteq> []
                   then [loop_rest post (line @ [NL])] else [])"
    by (simp add: delivered_pure [OF conf] ps r)
  show ?thesis
  proof (cases "loop_posts post (line @ [NL]) = []")
    case False
    then show ?thesis
      by (cases "loop_posts post (line @ [NL])") (simp_all add: d)
  next
    case True
    have rest: "loop_rest post (line @ [NL]) = render (line # post)"
      using no_flush_rest [OF True] by (simp add: render_Cons)
    have "p \<in> set (line # post)"
    proof (rule ccontr)
      assume np: "p \<notin> set (line # post)"
      from shape l have "pre @ line # post = ls @ [p] \<or> pre @ line # post = ls @ [p, []]"
        by simp
      with np have "pre = ls @ [p] \<and> line = [] \<and> post = []"
        by (auto simp: append_eq_append_conv2 append_eq_Cons_conv Cons_eq_append_conv)
      then have "render ?lines = render pre @ [NL]"
        using l by (simp add: render_append render_Cons render_Nil)
      with f total show False by simp
    qed
    then have "\<not> list_all (list_all isspace) (line # post)"
      using p by (auto simp: list_all_iff)
    then have "\<not> list_all isspace (render (line # post))"
      using blank_render_iff [of "line # post"] by blast
    then have "strip (loop_rest post (line @ [NL])) \<noteq> []"
      using strip_empty_iff [of "render (line # post)"] rest by simp
    then show ?thesis
      by (simp add: d)
  qed
qed

text \<open>
  Claim C10. For every message whose first line has 1900 characters or more, the first chunk
  that \<open>send_to_discord\<close> posts to the webhook is the empty string: the test of the loop
  holds for the first line while the buffer is still empty, so the empty buffer is posted
  before the line is put into it. (The webhook is configured; otherwise nothing is posted.)
\<close>

theorem first_post_empty:
  assumes "\<not> unset (DISCORD_WEBHOOK_URL env)"
    and "max_len \<le> length (hd (split_nl message))"
  shows "\<exists>rest. delivered env message st = [] # rest"
proof -
  obtain l ls where ls: "split_nl message = l # ls"
    using split_nl_not_Nil [of message] by (cases "split_nl message") simp_all
  with assms(2) have "length [] + length l + 1 > max_len"
    by simp
  then have "loop_posts (l # ls) [] = [] # loop_posts ls (l @ [NL])"
    by simp
  then show ?thesis
    by (simp add: delivered_pure [OF assms(1)] ls)
qed

theorem first_post_empty_witness:
  "max_len \<le> length (hd (split_nl (replicate 1900 (97::nat)))) \<and>
   hd (delivered (fixed_env []) (replicate 1900 97) start_state) = []"
proof -
  have h: "max_len \<le> length (hd (split_nl (replicate 1900 (97::nat))))"
    by (simp add: split_nl_single NL_def max_len_def)
  from first_post_empty [OF fixed_env_webhook h] obtain rest where
    "delivered (fixed_env []) (replicate 1900 97) start_state = [] # rest"
    by blast
  with h show ?thesis by simp
qed

text \<open>
  Claim C1, as the code has it. The claim as stated fails twice. A line of 1900 characters
  or more is put into the buffer whole, so the chunk that holds it exceeds 1900 characters;
  and the buffer left after the loop is posted only when it is not blank, so a message of
  more than 1900 characters may be delivered in a single call; both are shown on concrete
  messages after the theorem.

  What holds, for every message of more than 1900 characters: \<open>send_to_discord\<close> makes at least
  one delivery call. It makes more than one exactly when the part of the message that follows
  the first delivered chunk is not blank, or holds a line feed and has 1900 characters or
  more; in particular whenever the message ends in a line \<open>p\<close> that is not blank, or in such a
  line and one line feed, which is how a digest ends (\<open>digest_two_calls\<close> at the end of the
  theory). And when every line of the message is shorter than 1900 characters, no delivered
  chunk exceeds 1900 characters.
\<close>

theorem chunking_bounds:
  assumes "\<not> unset (DISCORD_WEBHOOK_URL env)"
    and "max_len < length message"
  shows "delivered env message st \<noteq> [] \<and>
         (1 < length (delivered env message st) \<longleftrightarrow>
            \<not> list_all isspace (drop (length (hd (delivered env message st))) message) \<or>
            (NL \<in> set (drop (length (hd (delivered env message st))) message) \<and>
             max_len \<le> length (drop (length (hd (delivered env message st))) message))) \<and>
         (\<not> list_all isspace p \<and>
          (split_nl message = ls @ [p] \<or> split_nl message = ls @ [p, []]) \<longrightarrow>
            1 < length (delivered env message st)) \<and>
         ((\<forall>l \<in> set (split_nl message). length l < max_len) \<longrightarrow>
            (\<forall>c \<in> set (delivered env message st). length c \<le> max_len))"
proof -
  have small: "\<forall>c \<in> set (delivered env message st). length c \<le> max_len"
    if short: "\<forall>l \<in> set (split_nl message). length l < max_len"
  proof -
    have "(\<forall>c \<in> set (loop_posts (split_nl message) []). length c \<le> max_len) \<and>
          length (loop_rest (split_nl message) []) \<le> max_len"
      using short by (rule loop_bound) simp
    then show ?thesis
      by (auto simp: delivered_pure [OF assms(1)])
  qed
  have ending: "1 < length (delivered env message st)"
    if "\<not> list_all isspace p"
      and "split_nl message = ls @ [p] \<or> split_nl message = ls @ [p, []]"
    using two_calls_ending [OF assms that(2) that(1)] .
  from call_count [OF assms, of st] small ending show ?thesis
    by blast
qed

theorem chunking_bounds_witness:
  "max_len < length (replicate 1899 (97::nat) @ [NL, 98, NL]) \<and>
   split_nl (replicate 1899 97 @ [NL, 98, NL]) = [replicate 1899 97, [98], []] \<and>
   list_all (\<lambda>l. length l < max_len) (split_nl (replicate 1899 97 @ [NL, 98, NL])) \<and>
   1 < length (delivered (fixed_env []) (replicate 1899 97 @ [NL, 98, NL]) start_state) \<and>
   list_all (\<lambda>c. length c \<le> max_len)
     (delivered (fixed_env []) (replicate 1899 97 @ [NL, 98, NL]) start_state)"
proof -
  let ?m = "replicate 1899 (97::nat) @ [NL, 98, NL]"
  have "split_nl (replicate 1899 97 @ NL # [98, NL]) = replicate 1899 97 # split_nl [98, NL]"
    by (rule split_nl_line) (simp add: NL_def)
  moreover have "split_nl [98, NL] = [[98], []]"
    by (simp add: NL_def)
  ultimately have sp: "split_nl ?m = [replicate 1899 97] @ [[98], []]"
    by simp
  have h1: "max_len < length ?m"
    by (simp add: max_len_def)
  have h2: "\<forall>l \<in> set (split_nl ?m). length l < max_len"
    by (simp add: sp max_len_def)
  have h3: "\<not> list_all isspace [98]"
    by (simp add: isspace_def)
  from chunking_bounds [OF fixed_env_webhook h1, where st = start_state and p = "[98]"
      and ls = "[replicate 1899 97]"] sp h2 h3
  have "1 < length (delivered (fixed_env []) ?m start_state)"
    and "\<forall>c \<in> set (delivered (fixed_env []) ?m start_state). length c \<le> max_len"
    by blast+
  with h1 h2 sp show ?thesis
    by (simp add: list_all_iff)
qed

theorem chunking_counterexample:
  "max_len < length (replicate 2000 (97::nat)) \<and>
   delivered (fixed_env []) (replicate 2000 97) start_state = [[], replicate 2000 97 @ [NL]] \<and>
   max_len < length (replicate 2000 (97::nat) @ [NL]) \<and>
   max_len < length (replicate 1899 (97::nat) @ [NL, SPACE]) \<and>
   delivered (fixed_env []) (replicate 1899 97 @ [NL, SPACE]) start_state =
     [replicate 1899 97 @ [NL]]"
proof -
  have a: "delivered (fixed_env []) (replicate 2000 97) start_state = [[], replicate 2000 97 @ [NL]]"
    by (rule delivered_one_long) (simp_all add: NL_def max_len_def isspace_def list_all_iff)
  have b: "delivered (fixed_env []) (replicate 1899 97 @ NL # [SPACE]) start_state =
     (replicate 1899 97 @ [NL]) #
       (if list_all isspace ([SPACE] @ [NL]) then [] else [[SPACE] @ [NL]])"
    by (rule delivered_two_short) (simp_all add: NL_def SPACE_def max_len_def)
  have "list_all isspace ([SPACE] @ [NL])"
    by (simp add: isspace_def SPACE_def NL_def)
  with b have b': "delivered (fixed_env []) (replicate 1899 97 @ [NL, SPACE]) start_state =
     [replicate 1899 97 @ [NL]]"
    by simp
  show ?thesis
    by (simp add: a b' max_len_def)
qed

text \<open>
  Claim C2, as the code has it. The claim as stated fails when the buffer left after the
  loop is blank: it is not posted, and its lines are missing from what is delivered, as shown
  on a concrete message after the theorem.

  What holds: for every message, the lines of the message are cut into consecutive runs
  \<open>gs\<close> followed by a last run \<open>rest\<close>; each delivered chunk is one run of \<open>gs\<close>, every line of
  it followed by its line feed, so chunks break at line boundaries only; the line content of
  the delivered chunks, concatenated, is the lines of \<open>gs\<close> in order; \<open>rest\<close> holds blank lines
  only, and it is empty when the last line of the message is not blank.
\<close>

theorem chunks_are_lines:
  assumes "\<not> unset (DISCORD_WEBHOOK_URL env)"
  shows "\<exists>gs rest.
           split_nl message = concat gs @ rest \<and>
           delivered env message st = map render gs \<and>
           concat (map chunk_lines (delivered env message st)) = concat gs \<and>
           list_all (list_all isspace) rest \<and>
           (\<not> list_all isspace (last (split_nl message)) \<longrightarrow> rest = [])"
proof -
  let ?lines = "split_nl message"
  have "[] = render []"
    by (simp add: render_Nil)
  from loop_groups [OF this, of ?lines] obtain gs g' where
    g: "?lines = concat gs @ g'" "loop_posts ?lines [] = map render gs"
       "loop_rest ?lines [] = render g'"
    by auto
  have nl: "\<forall>l \<in> set ?lines. NL \<notin> set l"
    using split_nl_no_NL by blast
  show ?thesis
  proof (cases "strip (render g') = []")
    case True
    have d: "delivered env message st = map render gs"
      using True by (simp add: delivered_pure [OF assms] g(2,3))
    have "\<forall>g \<in> set gs. \<forall>l \<in> set g. NL \<notin> set l"
      using nl g(1) by auto
    then have c: "concat (map chunk_lines (delivered env message st)) = concat gs"
      unfolding d by (rule chunk_lines_groups)
    have b: "list_all (list_all isspace) g'"
      using True by (simp add: strip_empty_iff blank_render)
    have e: "\<not> list_all isspace (last ?lines) \<longrightarrow> g' = []"
      using True rest_not_blank [OF split_nl_not_Nil, of message "[]"] g(3) by auto
    from g(1) d c b e show ?thesis by blast
  next
    case False
    have d: "delivered env message st = map render (gs @ [g'])"
      using False by (simp add: delivered_pure [OF assms] g(2,3))
    have "\<forall>g \<in> set (gs @ [g']). \<forall>l \<in> set g. NL \<notin> set l"
      using nl g(1) by auto
    then have c: "concat (map chunk_lines (delivered env message st)) = concat (gs @ [g'])"
      unfolding d by (rule chunk_lines_groups)
    have a: "?lines = concat (gs @ [g']) @ []"
      using g(1) by simp
    have b: "list_all (list_all isspace) ([]::pystr list)"
      by simp
    from a d c b show ?thesis by blast
  qed
qed

theorem chunks_are_lines_witness:
  "concat (map chunk_lines (delivered (fixed_env []) [97, NL, 98] start_state)) =
     split_nl [97, NL, 98]"
proof -
  let ?m = "[97, NL, 98]"
  have nb: "\<not> list_all isspace (last (split_nl ?m))"
    by (simp add: NL_def isspace_def)
  from chunks_are_lines [OF fixed_env_webhook [of "[]"], where message = ?m and st = start_state]
  obtain gs rest where
    a: "split_nl ?m = concat gs @ rest"
    and c: "concat (map chunk_lines (delivered (fixed_env []) ?m start_state)) = concat gs"
    and r: "\<not> list_all isspace (last (split_nl ?m)) \<longrightarrow> rest = []"
    by blast
  from r nb have "rest = []" by blast
  with a c show ?thesis by simp
qed

theorem chunks_are_lines_counterexample:
  "delivered (fixed_env []) (replicate 1899 97 @ [NL, SPACE]) start_state =
     [replicate 1899 97 @ [NL]] \<and>
   concat (map chunk_lines (delivered (fixed_env []) (replicate 1899 97 @ [NL, SPACE]) start_state)) =
     [replicate 1899 97] \<and>
   split_nl (replicate 1899 97 @ [NL, SPACE]) = [replicate 1899 97, [SPACE]]"
proof -
  have b: "delivered (fixed_env []) (replicate 1899 97 @ NL # [SPACE]) start_state =
     (replicate 1899 97 @ [NL]) #
       (if list_all isspace ([SPACE] @ [NL]) then [] else [[SPACE] @ [NL]])"
    by (rule delivered_two_short) (simp_all add: NL_def SPACE_def max_len_def)
  have "list_all isspace ([SPACE] @ [NL])"
    by (simp add: isspace_def SPACE_def NL_def)
  with b have d: "delivered (fixed_env []) (replicate 1899 97 @ [NL, SPACE]) start_state =
     [replicate 1899 97 @ [NL]]"
    by simp
  have "chunk_lines (render [replicate 1899 97]) = [replicate 1899 97]"
    by (rule chunk_lines_render) (simp add: NL_def)
  then have c: "chunk_lines (replicate 1899 97 @ [NL]) = [replicate 1899 97]"
    by (simp add: render_def)
  have s: "split_nl (replicate 1899 97 @ [NL, SPACE]) = [replicate 1899 97, [SPACE]]"
    using two_lines [of "replicate 1899 97" "[SPACE]"] by (simp add: NL_def SPACE_def)
  show ?thesis
    by (simp add: d c s)
qed

section \<open>The message builder\<close>

lemma enumerate_loop_acc:
  "enumerate_loop entry i news lines =
     lines @ concat (map (\<lambda>(k, n). entry k n) (zip [i..<i + length news] news))"
proof (induction news arbitrary: i lines)
  case Nil
  show ?case by simp
next
  case (Cons n news)
  have "[i..<i + length (n # news)] = i # [Suc i..<Suc i + length news]"
    by (simp add: upt_rec)
  then show ?case
    by (simp add: Cons.IH)
qed

lemma enumerate_loop_section:
  "enumerate_loop entry (Suc 0) news lines = lines @ section_lines entry news"
  using enumerate_loop_acc [of entry "Suc 0" news lines]
  by (simp add: section_lines_def)

lemma build_lines_sections:
  "build_lines ko en zh =
     digest_title # header_ko # section_lines entry_ko ko @
     header_en # section_lines entry_en en @
     header_zh # section_lines entry_zh zh"
  by (simp add: build_lines_def Let_def enumerate_loop_section)

lemma str_nat_digit: "str_nat n \<noteq> [] \<and> 48 \<le> hd (str_nat n) \<and> hd (str_nat n) \<le> 57"
proof (induction n rule: str_nat.induct)
  case (1 n)
  show ?case
  proof (cases "n < 10")
    case True
    then show ?thesis by (simp add: str_nat.simps [of n])
  next
    case False
    with "1.IH" show ?thesis by (simp add: str_nat.simps [of n])
  qed
qed

lemma prefix_hd: "prefix p l \<Longrightarrow> p \<noteq> [] \<Longrightarrow> l \<noteq> [] \<and> hd l = hd p"
  by (cases p; cases l) simp_all

lemmas labels =
  summary_label_ko_def summary_label_en_def summary_label_zh_def link_label_def ascii_simps

lemma title_line_plain:
  "\<not> is_summary_line (str_nat i @ ascii ''. '' @ t) \<and> \<not> is_link_line (str_nat i @ ascii ''. '' @ t)"
proof -
  let ?l = "str_nat i @ ascii ''. '' @ t"
  have d: "48 \<le> hd ?l"
    using str_nat_digit [of i] by simp
  have "\<not> prefix p ?l" if "p \<noteq> []" "hd p = 32" for p
    using prefix_hd [of p ?l] that d by auto
  then show ?thesis
    by (simp add: is_summary_line_def is_link_line_def labels)
qed

lemma blank_line_plain: "\<not> is_summary_line [] \<and> \<not> is_link_line []"
  by (simp add: is_summary_line_def is_link_line_def labels)

lemma header_plain:
  "\<not> is_link_line header_en \<and> \<not> is_link_line header_zh \<and> \<not> is_link_line header_ko \<and>
   \<not> is_link_line digest_title"
  by (simp add: is_link_line_def labels header_en_def header_zh_def header_ko_def digest_title_def)

lemma summary_line_not_link:
  "\<not> is_link_line (summary_label_ko @ s) \<and> \<not> is_link_line (summary_label_en @ s) \<and>
   \<not> is_link_line (summary_label_zh @ s)"
  by (simp add: is_link_line_def labels)

lemma link_line_not_summary: "\<not> is_summary_line (link_label @ u)"
  by (simp add: is_summary_line_def labels)

lemma entry_en_no_link: "\<not> list_ex is_link_line (entry_en i n)"
  by (simp add: entry_en_def title_line_plain blank_line_plain summary_line_not_link)

lemma entry_zh_no_link: "\<not> list_ex is_link_line (entry_zh i n)"
  by (simp add: entry_zh_def title_line_plain blank_line_plain summary_line_not_link)

lemma section_no_link:
  assumes "\<And>i n. \<not> list_ex is_link_line (entry i n)"
  shows "\<not> list_ex is_link_line (section_lines entry news)"
  using assms by (auto simp: section_lines_def list_ex_iff)

lemma entry_lines_present:
  "(description n \<noteq> [] \<longrightarrow>
      list_ex is_summary_line (entry_ko i n) \<and> list_ex is_summary_line (entry_en i n) \<and>
      list_ex is_summary_line (entry_zh i n)) \<and>
   (url n \<noteq> [] \<longrightarrow> list_ex is_link_line (entry_ko i n))"
  by (simp add: entry_ko_def entry_en_def entry_zh_def is_summary_line_def is_link_line_def)

text \<open>
  The list \<open>lines\<close> that \<open>build_message\<close> joins is the title, then for each language its
  header and the entries of its articles. Among the lines that an article with an empty
  description adds, in any of the three sections, none is a summary line; among the lines
  that an article with an empty url adds to the Korean section, none is a link line; and no
  line of the English and Chinese sections, headers included, is a link line. A line is a
  summary line or a link line when it starts with the label that the source writes before a
  summary or a link. (\<open>entry_lines_present\<close> shows that the lines do appear when the
  description or the url is not empty.)
\<close>

lemma lines_optional_lines:
  "build_lines ko_news en_news zh_news =
     digest_title # header_ko # section_lines entry_ko ko_news @
     header_en # section_lines entry_en en_news @
     header_zh # section_lines entry_zh zh_news \<and>
   (description n = [] \<longrightarrow>
      \<not> list_ex is_summary_line (entry_ko i n @ entry_en i n @ entry_zh i n)) \<and>
   (url n = [] \<longrightarrow> \<not> list_ex is_link_line (entry_ko i n)) \<and>
   \<not> list_ex is_link_line
       (header_en # section_lines entry_en en_news @ header_zh # section_lines entry_zh zh_news)"
proof -
  have a: "description n = [] \<longrightarrow>
      \<not> list_ex is_summary_line (entry_ko i n @ entry_en i n @ entry_zh i n)"
    by (simp add: entry_ko_def entry_en_def entry_zh_def title_line_plain blank_line_plain
        link_line_not_summary)
  have b: "url n = [] \<longrightarrow> \<not> list_ex is_link_line (entry_ko i n)"
    by (simp add: entry_ko_def title_line_plain blank_line_plain summary_line_not_link)
  have c: "\<not> list_ex is_link_line
       (header_en # section_lines entry_en en_news @ header_zh # section_lines entry_zh zh_news)"
    using section_no_link [of entry_en en_news, OF entry_en_no_link]
      section_no_link [of entry_zh zh_news, OF entry_zh_no_link]
    by (simp add: header_plain)
  from build_lines_sections a b c show ?thesis by blast
qed

lemma lines_example:
  "entry_ko 1 plain_article = [ascii ''1. KOSPI'', []] \<and>
   entry_en 1 plain_article = [ascii ''1. KOSPI'', []] \<and>
   build_lines [full_article] [full_article] [] =
     [digest_title, header_ko,
      ascii ''1. KOSPI'', summary_label_ko @ ascii ''up'', link_label @ ascii ''http://x/1'', [],
      header_en,
      ascii ''1. KOSPI'', summary_label_en @ ascii ''up'', [],
      header_zh] \<and>
   list_ex is_link_line (entry_ko 1 full_article)"
proof -
  have e: "strip (replace_nl (ascii ''up'')) = ascii ''up''"
    by (simp add: strip_def replace_nl_def isspace_def ascii_simps NL_def)
  show ?thesis
    using lines_optional_lines [of "[full_article]" "[full_article]" "[]" plain_article 1]
    by (simp add: plain_article_def full_article_def entry_ko_def entry_en_def section_lines_def
        str_nat.simps e is_link_line_def) (simp add: ascii_simps)
qed

text \<open>
  The digest is the join of these lines, and its own lines are the pieces between line
  feeds. When no title and no url of the Korean list holds a line feed, the lines of the
  digest are the title line, an empty line and the elements of \<open>lines\<close> as they stand, so what
  was said of \<open>lines\<close> holds of the digest.
\<close>

lemma split_nl_append: "split_nl (a @ NL # b) = split_nl a @ split_nl b"
proof (induction a)
  case Nil
  show ?case by simp
next
  case (Cons c a)
  then show ?case
    by (cases "split_nl a") (simp_all add: split_nl_not_Nil)
qed

lemma split_join: "ls \<noteq> [] \<Longrightarrow> split_nl (join_nl ls) = concat (map split_nl ls)"
proof (induction ls rule: join_nl.induct)
  case 1
  then show ?case by simp
next
  case (2 l)
  show ?case by simp
next
  case (3 l k ls)
  then show ?case by (simp add: split_nl_append)
qed

lemma split_plain_lines:
  "\<forall>l \<in> set ls. NL \<notin> set l \<Longrightarrow> concat (map split_nl ls) = ls"
  by (induction ls) (simp_all add: split_nl_single)

lemma str_nat_digits: "\<forall>c \<in> set (str_nat n). 48 \<le> c \<and> c \<le> 57"
proof (induction n rule: str_nat.induct)
  case (1 n)
  show ?case
  proof (cases "n < 10")
    case True
    then show ?thesis by (simp add: str_nat.simps [of n])
  next
    case False
    have "n mod 10 < 10" by simp
    with False "1.IH" show ?thesis
      by (simp add: str_nat.simps [of n])
  qed
qed

lemma str_nat_no_NL: "NL \<notin> set (str_nat n)"
  using str_nat_digits [of n] by (auto simp: NL_def)

lemma summary_text_no_NL: "NL \<notin> set (strip (replace_nl d))"
proof -
  have "set (strip (replace_nl d)) \<subseteq> set (replace_nl d)"
    by (auto simp: strip_def dest!: set_dropWhileD)
  moreover have "NL \<notin> set (replace_nl d)"
    by (auto simp: replace_nl_def NL_def SPACE_def)
  ultimately show ?thesis by blast
qed

lemma labels_no_NL:
  "NL \<notin> set summary_label_ko" "NL \<notin> set summary_label_en" "NL \<notin> set summary_label_zh"
  "NL \<notin> set link_label" "NL \<notin> set header_ko" "NL \<notin> set header_en" "NL \<notin> set header_zh"
  "NL \<notin> set (ascii ''. '')"
  by (simp_all add: labels header_ko_def header_en_def header_zh_def NL_def)

lemma entry_ko_no_NL:
  "NL \<notin> set (title n) \<Longrightarrow> NL \<notin> set (url n) \<Longrightarrow> \<forall>l \<in> set (entry_ko i n). NL \<notin> set l"
  by (auto simp: entry_ko_def str_nat_no_NL summary_text_no_NL labels_no_NL)

lemma entry_en_no_NL: "NL \<notin> set (title n) \<Longrightarrow> \<forall>l \<in> set (entry_en i n). NL \<notin> set l"
  by (auto simp: entry_en_def str_nat_no_NL summary_text_no_NL labels_no_NL)

lemma entry_zh_no_NL: "NL \<notin> set (title n) \<Longrightarrow> \<forall>l \<in> set (entry_zh i n). NL \<notin> set l"
  by (auto simp: entry_zh_def str_nat_no_NL summary_text_no_NL labels_no_NL)

lemma section_no_NL:
  assumes "\<And>i n. n \<in> set news \<Longrightarrow> \<forall>l \<in> set (entry i n). NL \<notin> set l"
  shows "\<forall>l \<in> set (section_lines entry news). NL \<notin> set l"
  using assms by (auto simp: section_lines_def dest!: set_zip_rightD)

lemma digest_lines:
  assumes "\<forall>n \<in> set (ko_news @ en_news @ zh_news). NL \<notin> set (title n)"
    and "\<forall>n \<in> set ko_news. NL \<notin> set (url n)"
  shows "split_nl (build_message ko_news en_news zh_news) =
           split_nl digest_title @
           header_ko # section_lines entry_ko ko_news @
           header_en # section_lines entry_en en_news @
           header_zh # section_lines entry_zh zh_news"
proof -
  let ?body = "header_ko # section_lines entry_ko ko_news @
           header_en # section_lines entry_en en_news @
           header_zh # section_lines entry_zh zh_news"
  have ko: "\<forall>l \<in> set (section_lines entry_ko ko_news). NL \<notin> set l"
    using assms by (intro section_no_NL entry_ko_no_NL) simp_all
  have en: "\<forall>l \<in> set (section_lines entry_en en_news). NL \<notin> set l"
    using assms by (intro section_no_NL entry_en_no_NL) simp_all
  have zh: "\<forall>l \<in> set (section_lines entry_zh zh_news). NL \<notin> set l"
    using assms by (intro section_no_NL entry_zh_no_NL) simp_all
  have "\<forall>l \<in> set ?body. NL \<notin> set l"
    using ko en zh by (auto simp: labels_no_NL)
  then have plain: "concat (map split_nl ?body) = ?body"
    by (rule split_plain_lines)
  have b: "build_lines ko_news en_news zh_news = digest_title # ?body"
    by (rule build_lines_sections)
  have "split_nl (build_message ko_news en_news zh_news) =
          concat (map split_nl (build_lines ko_news en_news zh_news))"
    unfolding build_message_def by (rule split_join) (simp add: b)
  also have "\<dots> = split_nl digest_title @ concat (map split_nl ?body)"
    by (simp only: b list.map concat.simps)
  finally show ?thesis
    by (simp only: plain)
qed

text \<open>
  The article with the injected title is what the fetcher returns when the search answers
  with that title, and what \<open>translate_news_list\<close> returns for it when the translator raises.
\<close>

lemma strip_injected_title: "strip injected_title = injected_title"
  by (simp add: strip_def injected_title_def labels isspace_def NL_def)

lemma injected_article_reachable:
  "fst (fetch_korean_stock_news injecting_env TOP_N st) = Inr [injected_article] \<and>
   fst (translate_news_list injecting_env [injected_article] dest_lang st) = [injected_article]"
proof -
  have t: "injected_title \<noteq> []"
    by (simp add: injected_title_def ascii_simps)
  have a: "fst (fetch_korean_stock_news injecting_env TOP_N st) = Inr [injected_article]"
    using t
    by (simp add: fetch_korean_stock_news_def injecting_env_def fixed_env_def unset_def Let_def
        get_articles_def or_empty_def strip_injected_title injected_article_def ascii_simps
        split: prod.splits)
  have b: "fst (translate_news_list injecting_env [injected_article] dest_lang st) =
             [injected_article]"
    using t
    by (simp add: translate_news_list_def translate_item_def translate_text_def
        injecting_env_def fixed_env_def injected_article_def)
  from a b show ?thesis by blast
qed

text \<open>
  Claim C9. The claim says that in the digest an article with an empty description gives no
  summary line, one with an empty url gives no link line, and link lines are in the Korean
  section only. \<open>build_message\<close> replaces the line feeds of a description by spaces, but it
  writes the title as it is. A title with a line feed in it therefore puts lines of its own
  into the digest: for the article below, whose description and url are empty, each of the
  three sections of the digest, the English and the Chinese one included, holds a summary
  line and a link line.
\<close>

theorem digest_title_line_feed:
  "description injected_article = [] \<and> url injected_article = [] \<and>
   split_nl (build_message [injected_article] [injected_article] [injected_article]) =
     split_nl digest_title @
     [header_ko,
      ascii ''1. x'', summary_label_en @ ascii ''s'', link_label @ ascii ''http://e'', [],
      header_en,
      ascii ''1. x'', summary_label_en @ ascii ''s'', link_label @ ascii ''http://e'', [],
      header_zh,
      ascii ''1. x'', summary_label_en @ ascii ''s'', link_label @ ascii ''http://e'', []] \<and>
   is_summary_line (summary_label_en @ ascii ''s'') \<and>
   is_link_line (link_label @ ascii ''http://e'')"
proof -
  let ?t = "ascii ''1. '' @ injected_title"
  have b: "build_lines [injected_article] [injected_article] [injected_article] =
      [digest_title, header_ko, ?t, [], header_en, ?t, [], header_zh, ?t, []]"
    by (simp add: build_lines_sections section_lines_def entry_ko_def entry_en_def entry_zh_def
        injected_article_def str_nat.simps ascii_simps)
  let ?a = "ascii ''1. x''" and ?b = "summary_label_en @ ascii ''s''"
    and ?c = "link_label @ ascii ''http://e''"
  have pieces: "split_nl ?a = [?a]" "split_nl ?b = [?b]" "split_nl ?c = [?c]"
    by (rule split_nl_single, simp add: labels NL_def)+
  have "split_nl (?a @ NL # (?b @ NL # ?c)) = split_nl ?a @ split_nl ?b @ split_nl ?c"
    by (simp only: split_nl_append)
  moreover have "?t = ?a @ NL # (?b @ NL # ?c)"
    by (simp add: injected_title_def ascii_simps)
  ultimately have t: "split_nl ?t = [?a, ?b, ?c]"
    by (simp only: pieces append.simps)
  have h: "split_nl header_ko = [header_ko]" "split_nl header_en = [header_en]"
    "split_nl header_zh = [header_zh]"
    by (simp_all add: split_nl_single labels_no_NL)
  have s: "split_nl (build_message [injected_article] [injected_article] [injected_article]) =
     split_nl digest_title @
     [header_ko,
      ascii ''1. x'', summary_label_en @ ascii ''s'', link_label @ ascii ''http://e'', [],
      header_en,
      ascii ''1. x'', summary_label_en @ ascii ''s'', link_label @ ascii ''http://e'', [],
      header_zh,
      ascii ''1. x'', summary_label_en @ ascii ''s'', link_label @ ascii ''http://e'', []]"
  proof -
    have "split_nl (build_message [injected_article] [injected_article] [injected_article]) =
        concat (map split_nl
          (build_lines [injected_article] [injected_article] [injected_article]))"
      unfolding build_message_def by (rule split_join) (simp add: b)
    also have "\<dots> = concat (map split_nl
        [digest_title, header_ko, ?t, [], header_en, ?t, [], header_zh, ?t, []])"
      by (simp only: b)
    finally show ?thesis
      by (simp add: t h del: split_nl.simps(2))
  qed
  have e: "description injected_article = []" "url injected_article = []"
    by (simp_all add: injected_article_def)
  have l: "is_summary_line (summary_label_en @ ascii ''s'')"
    "is_link_line (link_label @ ascii ''http://e'')"
    by (simp_all add: is_summary_line_def is_link_line_def)
  show ?thesis
    by (intro conjI e s l)
qed

section \<open>Digests through the notifier\<close>

lemma enumerate_loop_snoc:
  "enumerate_loop entry i (news @ [n]) lines =
     enumerate_loop entry i news lines @ entry (i + length news) n"
  by (induction news arbitrary: i lines) simp_all

lemma section_lines_snoc:
  "section_lines entry (news @ [n]) = section_lines entry news @ entry (Suc (length news)) n"
  using enumerate_loop_snoc [of entry "Suc 0" news n "[]"]
  by (simp add: enumerate_loop_section)

lemma title_line_not_blank: "\<not> list_all isspace (str_nat i @ ascii ''. '' @ t)"
proof -
  have "hd (str_nat i) \<in> set (str_nat i @ ascii ''. '' @ t)"
    using str_nat_digit [of i] by simp
  moreover have "\<not> isspace (hd (str_nat i))"
    using str_nat_digit [of i] by (simp add: isspace_def)
  ultimately show ?thesis
    by (auto simp: list_all_iff)
qed

lemma entry_zh_ending: "\<exists>ls p. entry_zh i n = ls @ [p, []] \<and> \<not> list_all isspace p"
proof (cases "description n = []")
  case True
  then have "entry_zh i n = [] @ [str_nat i @ ascii ''. '' @ title n, []]"
    by (simp add: entry_zh_def)
  with title_line_not_blank show ?thesis by blast
next
  case False
  let ?s = "summary_label_zh @ strip (replace_nl (description n))"
  have "entry_zh i n = [str_nat i @ ascii ''. '' @ title n] @ [?s, []]"
    using False by (simp add: entry_zh_def)
  moreover have "\<not> list_all isspace ?s"
    by (simp add: labels isspace_def)
  ultimately show ?thesis by blast
qed

text \<open>
  A digest with at least one Chinese entry and no line feed in its titles and urls ends in
  a line that is not blank and one empty line; when it has more than 1900 characters it is
  delivered in more than one call.
\<close>

lemma digest_two_calls:
  assumes conf: "\<not> unset (DISCORD_WEBHOOK_URL env)"
    and long: "max_len < length (build_message ko_news en_news zh_news)"
    and titles: "\<forall>n \<in> set (ko_news @ en_news @ zh_news). NL \<notin> set (title n)"
    and urls: "\<forall>n \<in> set ko_news. NL \<notin> set (url n)"
    and zh: "zh_news \<noteq> []"
  shows "1 < length (delivered env (build_message ko_news en_news zh_news) st)"
proof -
  from zh obtain zs z where z: "zh_news = zs @ [z]"
    by (cases zh_news rule: rev_cases) simp_all
  obtain es p where e: "entry_zh (Suc (length zs)) z = es @ [p, []]" and p: "\<not> list_all isspace p"
    using entry_zh_ending by blast
  have "split_nl (build_message ko_news en_news zh_news) =
          (split_nl digest_title @
           header_ko # section_lines entry_ko ko_news @
           header_en # section_lines entry_en en_news @
           header_zh # section_lines entry_zh zs @ es) @ [p, []]"
    unfolding digest_lines [OF titles urls] by (simp add: z section_lines_snoc e)
  then have "split_nl (build_message ko_news en_news zh_news) =
          (split_nl digest_title @
           header_ko # section_lines entry_ko ko_news @
           header_en # section_lines entry_en en_news @
           header_zh # section_lines entry_zh zs @ es) @ [p] \<or>
        split_nl (build_message ko_news en_news zh_news) =
          (split_nl digest_title @
           header_ko # section_lines entry_ko ko_news @
           header_en # section_lines entry_en en_news @
           header_zh # section_lines entry_zh zs @ es) @ [p, []]"
    by (rule disjI2)
  from two_calls_ending [OF conf long this p] show ?thesis .
qed

end
